theory Spec2Isabelle
  imports Main "HOL-Library.Word"
begin

section \<open>Control protocol of the Amber Radiance 1 camera (src/index.js)\<close>

text \<open>
  A Node.js \<open>Buffer\<close> is a \<open>Uint8Array\<close>: a list of 8-bit words. Storing a number into
  a cell keeps its low eight bits (\<open>word_of_int\<close>), and \<open>+=\<close> on a cell wraps around.
  JavaScript numbers that the code uses as integers are \<open>int\<close>; sizes and offsets are
  \<open>nat\<close>. Every \<open>throw\<close> of the source, and every exception raised by the Buffer
  methods it calls, is an \<open>error\<close> value.
\<close>

type_synonym byte = "8 word"

datatype error =
    RangeError              \<comment> \<open>Buffer read or write out of range\<close>
  | ChecksumMismatch        \<comment> \<open>\<open>Error("Incorrect checksum: ...")\<close> of \<open>parsePacket\<close>\<close>
  | InvalidOption string    \<comment> \<open>\<open>Error("Option ... is invalid. ...")\<close> of \<open>validate\<close>\<close>
  | TypeError               \<comment> \<open>method call on \<open>undefined\<close>\<close>
  | Timeout                 \<comment> \<open>the abort signal of \<open>send\<close> fired\<close>

subsection \<open>Buffer primitives\<close>

text \<open>\<open>buf.writeUInt16LE(value, offset)\<close>: the value must lie in 0..65535 and both
  cells must exist, otherwise Node raises a range error.\<close>

definition writeUInt16LE :: "byte list \<Rightarrow> int \<Rightarrow> nat \<Rightarrow> error + byte list" where
  "writeUInt16LE buf v off =
     (if v < 0 \<or> 65535 < v \<or> length buf < off + 2 then Inl RangeError
      else Inr (buf[off := word_of_int v, off + 1 := word_of_int (v div 256)]))"

text \<open>\<open>buf.readUInt16LE(offset)\<close>.\<close>

definition readUInt16LE :: "byte list \<Rightarrow> nat \<Rightarrow> error + nat" where
  "readUInt16LE buf off =
     (if length buf < off + 2 then Inl RangeError
      else Inr (unat (buf ! off) + unat (buf ! (off + 1)) * 256))"

text \<open>\<open>buf.subarray(start, end)\<close> with \<open>start \<le> end\<close>; indices past the end are clamped.\<close>

definition subarray :: "byte list \<Rightarrow> nat \<Rightarrow> nat \<Rightarrow> byte list" where
  "subarray buf start fin = take (fin - start) (drop start buf)"

subsection \<open>Packet codec\<close>

definition STD_HEADER :: "byte list" where
  "STD_HEADER = [3, 0, 1, 0, 0, 0, 0xff, 0xff]"

definition STD_FOOTER :: "byte list" where
  "STD_FOOTER = [0, 2, 0, 0]"

text \<open>The loop \<open>for (i = 0; i < data.length; i++) dataBlock.writeUInt16LE(data[i], 2 + i * 2)\<close>.\<close>

fun writeWords :: "byte list \<Rightarrow> int list \<Rightarrow> nat \<Rightarrow> error + byte list" where
  "writeWords dataBlock [] i = Inr dataBlock"
| "writeWords dataBlock (d # ds) i =
     (case writeUInt16LE dataBlock d (2 + i * 2) of
        Inl e \<Rightarrow> Inl e
      | Inr dataBlock' \<Rightarrow> writeWords dataBlock' ds (i + 1))"

text \<open>The loop \<open>for (i = 0; i < msg.length; i++) footer[0] += msg[i]\<close>, on a byte cell.\<close>

fun addBytes :: "byte \<Rightarrow> byte list \<Rightarrow> byte" where
  "addBytes acc [] = acc"
| "addBytes acc (b # bs) = addBytes (acc + b) bs"

definition createPacket :: "int \<Rightarrow> int \<Rightarrow> int \<Rightarrow> int list \<Rightarrow> error + byte list" where
  "createPacket messageNumber command subCommand data =
     (let header = STD_HEADER[3 := word_of_int command, 4 := word_of_int subCommand,
                              5 := word_of_int messageNumber];
          dataSize = 2 + length data * 2;
          dataBlock0 = replicate dataSize (0 :: byte);
          written =
            (if data \<noteq> [] then
               (case writeUInt16LE dataBlock0 (int (length data * 2)) 0 of
                  Inl e \<Rightarrow> Inl e
                | Inr dataBlock1 \<Rightarrow> writeWords dataBlock1 data 0)
             else Inr dataBlock0)
      in case written of
           Inl e \<Rightarrow> Inl e
         | Inr dataBlock \<Rightarrow>
             (let msg = header @ dataBlock;
                  footer = STD_FOOTER[0 := addBytes (STD_FOOTER ! 0) msg]
              in Inr (msg @ footer)))"

text \<open>The loop \<open>for (i = 0; i < 10 + dataSize; i++) expected += buff[i]\<close> on a number.
  Reading past the end of the buffer gives \<open>undefined\<close>, which turns the sum into
  \<open>NaN\<close> for good: \<open>None\<close>.\<close>

fun sumBytes :: "byte list \<Rightarrow> nat \<Rightarrow> nat option" where
  "sumBytes buff 0 = Some 0"
| "sumBytes buff (Suc i) =
     (case sumBytes buff i of
        None \<Rightarrow> None
      | Some expected \<Rightarrow> if i < length buff then Some (expected + unat (buff ! i)) else None)"

record parsed =
  messageID :: int
  response :: "byte list option"   \<comment> \<open>\<open>None\<close> is \<open>undefined\<close>\<close>

text \<open>\<open>buff[10 + dataSize] !== expected % 256\<close> holds as well when either side is
  \<open>undefined\<close> or \<open>NaN\<close>.\<close>

definition parsePacket :: "byte list \<Rightarrow> nat \<Rightarrow> error + parsed" where
  "parsePacket buff dataSize =
     (case sumBytes buff (10 + dataSize) of
        None \<Rightarrow> Inl ChecksumMismatch
      | Some expected \<Rightarrow>
          if length buff \<le> 10 + dataSize then Inl ChecksumMismatch
          else if unat (buff ! (10 + dataSize)) \<noteq> expected mod 256 then Inl ChecksumMismatch
          else Inr \<lparr> messageID = uint (buff ! 5),
                     response = (if dataSize \<noteq> 0 then Some (subarray buff 10 (10 + dataSize))
                                 else None) \<rparr>)"

text \<open>An argument word as it lies on the wire: low byte first.\<close>

definition le16 :: "int \<Rightarrow> byte list" where
  "le16 v = [word_of_int v, word_of_int (v div 256)]"


text \<open>The eight header bytes after \<open>createPacket\<close> has filled in cells 3, 4 and 5.\<close>

definition header :: "int \<Rightarrow> int \<Rightarrow> int \<Rightarrow> byte list" where
  "header messageNumber command subCommand =
     STD_HEADER[3 := word_of_int command, 4 := word_of_int subCommand,
                5 := word_of_int messageNumber]"

subsection \<open>Command table and option maps\<close>

text \<open>The entries of \<open>FUNCTIONS\<close> that the mode getters and setters spread into
  \<open>send\<close>: (function number, subfunction number).\<close>

definition AGC_OFF :: "int \<times> int" where "AGC_OFF = (1, 0)"
definition AGC_ON :: "int \<times> int" where "AGC_ON = (1, 1)"
definition AGC_SET :: "int \<times> int" where "AGC_SET = (1, 3)"
definition LUT_SET :: "int \<times> int" where "LUT_SET = (5, 1)"
definition LUT_GET :: "int \<times> int" where "LUT_GET = (5, 2)"
definition ITT_SET :: "int \<times> int" where "ITT_SET = (5, 4)"
definition ITT_GET :: "int \<times> int" where "ITT_GET = (5, 5)"
definition NUC_SET :: "int \<times> int" where "NUC_SET = (7, 5)"
definition NUC_GET :: "int \<times> int" where "NUC_GET = (7, 6)"

text \<open>An object literal with string keys: the keys in insertion order, which is the
  order of \<open>Object.keys\<close> and of \<open>for ... in\<close>.\<close>

type_synonym option_map = "(string \<times> int) list"

definition AGC_MODES :: option_map where
  "AGC_MODES = [(''off'', - 1), (''full'', 0), (''midsize'', 1), (''center'', 2), (''horizon'', 3)]"

definition ITT_MODES :: option_map where
  "ITT_MODES = [(''linear'', 1), (''inverse'', 2), (''s-curve'', 3), (''two-cycle'', 4)]"

definition NUC_MODES :: option_map where
  "NUC_MODES = [(''cold'', 1), (''mid'', 2), (''warm'', 3), (''hot'', 4)]"

definition LUT_MODES :: option_map where
  "LUT_MODES = [(''black-and-white'', 1), (''color'', 2), (''sepia'', 3)]"

text \<open>\<open>invertMap\<close>: the loop \<open>for (const key in obj) inverted[obj[key]] = key\<close>. The
  inverted object is only ever read at a number, so its keys are kept as numbers.\<close>

fun invertLoop :: "option_map \<Rightarrow> (int \<rightharpoonup> string) \<Rightarrow> (int \<rightharpoonup> string)" where
  "invertLoop [] inverted = inverted"
| "invertLoop ((key, v) # obj) inverted = invertLoop obj (inverted(v \<mapsto> key))"

definition invertMap :: "option_map \<Rightarrow> (int \<rightharpoonup> string)" where
  "invertMap obj = invertLoop obj Map.empty"

definition ITT_MAP :: "int \<rightharpoonup> string" where "ITT_MAP = invertMap ITT_MODES"
definition NUC_MAP :: "int \<rightharpoonup> string" where "NUC_MAP = invertMap NUC_MODES"
definition LUT_MAP :: "int \<rightharpoonup> string" where "LUT_MAP = invertMap LUT_MODES"

text \<open>\<open>keys.map(v => `"${v}"`).join(', ')\<close> and the message of \<open>validate\<close>.\<close>

definition quoted :: "string \<Rightarrow> string" where
  "quoted v = CHR 0x22 # v @ [CHR 0x22]"

fun join :: "string \<Rightarrow> string list \<Rightarrow> string" where
  "join sep [] = []"
| "join sep [x] = x"
| "join sep (x # y # ys) = x @ sep @ join sep (y # ys)"

definition invalidMessage :: "string \<Rightarrow> option_map \<Rightarrow> string" where
  "invalidMessage opt options =
     ''Option '' @ quoted opt @ '' is invalid. Available options are [''
       @ join '', '' (map quoted (map fst options)) @ '']''"

text \<open>\<open>options[option]\<close> for an own key of the object.\<close>

definition lookup :: "option_map \<Rightarrow> string \<Rightarrow> int" where
  "lookup options opt = the (map_of options opt)"

definition validate :: "string \<Rightarrow> option_map \<Rightarrow> error + int" where
  "validate opt options =
     (if opt \<notin> set (map fst options) then Inl (InvalidOption (invalidMessage opt options))
      else Inr (lookup options opt))"

subsection \<open>The camera object\<close>

text \<open>
  The fields of \<open>Camera\<close> that the protocol code reads and writes. The event emitter is
  kept as \<open>listeners\<close>: the numbers \<open>n\<close> of the pending \<open>once(this, `confirm/${n}`)\<close>
  promises (distinct numbers print as distinct event names). The transport is kept as
  \<open>sent\<close>: the packets given to \<open>controller.send\<close>, oldest first.
\<close>

record camera =
  messageNumber :: int
  receiveBuffer :: "byte list"
  listeners :: "int list"
  sent :: "byte list list"

definition newCamera :: camera where
  "newCamera = \<lparr> messageNumber = 1, receiveBuffer = [], listeners = [], sent = [] \<rparr>"

text \<open>
  What one call of \<open>receive\<close> did: nothing (\<open>Waiting\<close>), emitted
  \<open>confirm/<messageID>\<close> with the response for the packet it cut out of the buffer, or
  threw, with the packet it had cut out before.
\<close>

datatype received =
    Waiting
  | Emitted "byte list" int "byte list option"
  | Thrown "byte list option" error

definition receive :: "camera \<Rightarrow> byte list \<Rightarrow> received \<times> camera" where
  "receive cam data =
     (let buf = receiveBuffer cam @ data in
      if 14 \<le> length buf then
        (case readUInt16LE buf 8 of
           Inl e \<Rightarrow> (Thrown None e, cam\<lparr>receiveBuffer := buf\<rparr>)
         | Inr dataSize \<Rightarrow>
             (let packetSize = 14 + dataSize in
              if packetSize \<le> length buf then
                (let packet = subarray buf 0 packetSize;
                     cam' = cam\<lparr>receiveBuffer := drop packetSize buf\<rparr>
                 in case parsePacket packet dataSize of
                      Inl e \<Rightarrow> (Thrown (Some packet) e, cam')
                    | Inr r \<Rightarrow>
                        (Emitted packet (messageID r) (response r),
                         cam'\<lparr>listeners := filter (\<lambda>k. k \<noteq> messageID r) (listeners cam')\<rparr>))
              else (Waiting, cam\<lparr>receiveBuffer := buf\<rparr>)))
      else (Waiting, cam\<lparr>receiveBuffer := buf\<rparr>))"

text \<open>One \<open>data\<close> event after the other, on the same camera object.\<close>

fun receiveAll :: "camera \<Rightarrow> byte list list \<Rightarrow> received list \<times> camera" where
  "receiveAll cam [] = ([], cam)"
| "receiveAll cam (c # cs) =
     (case receive cam c of
        (r, cam') \<Rightarrow> (case receiveAll cam' cs of (rs, cam'') \<Rightarrow> (r # rs, cam'')))"

text \<open>The bytes a call of \<open>receive\<close> took off the buffer.\<close>

fun slice :: "received \<Rightarrow> byte list" where
  "slice Waiting = []"
| "slice (Emitted packet _ _) = packet"
| "slice (Thrown None _) = []"
| "slice (Thrown (Some packet) _) = packet"

text \<open>
  \<open>send(command, ...args)\<close> up to its \<open>await\<close>: \<open>createPacket(this.messageNumber,
  command, ...args)\<close>, so the first of \<open>args\<close> is the subcommand (0 when there is none);
  then the listener for \<open>confirm/${this.messageNumber++}\<close>; then \<open>controller.send\<close>.
  The result is the number of the event the promise waits for.
\<close>

definition send :: "camera \<Rightarrow> int \<Rightarrow> int list \<Rightarrow> (error + int) \<times> camera" where
  "send cam command args =
     (case (case args of
              [] \<Rightarrow> createPacket (messageNumber cam) command 0 []
            | subCommand # data \<Rightarrow> createPacket (messageNumber cam) command subCommand data) of
        Inl e \<Rightarrow> (Inl e, cam)
      | Inr packet \<Rightarrow>
          (Inr (messageNumber cam),
           cam\<lparr> listeners := listeners cam @ [messageNumber cam],
                messageNumber := messageNumber cam + 1,
                sent := sent cam @ [packet] \<rparr>))"

text \<open>
  The mode setters. \<open>setAGC\<close> awaits the confirmation of its first packet before it
  sends the second; \<open>confirmed\<close> is what that \<open>await\<close> gives: the response, or the
  error the promise was rejected with.
\<close>

definition setAGC ::
  "string \<Rightarrow> camera \<Rightarrow> error + byte list option \<Rightarrow> (error + int) \<times> camera" where
  "setAGC mode cam confirmed =
     (case validate mode AGC_MODES of
        Inl e \<Rightarrow> (Inl e, cam)
      | Inr _ \<Rightarrow>
          if mode = ''off'' then send cam (fst AGC_OFF) [snd AGC_OFF]
          else (case send cam (fst AGC_ON) [snd AGC_ON] of
                  (Inl e, cam') \<Rightarrow> (Inl e, cam')
                | (Inr _, cam') \<Rightarrow>
                    (case confirmed of
                       Inl e \<Rightarrow> (Inl e, cam')
                     | Inr _ \<Rightarrow> send cam' (fst AGC_SET) [snd AGC_SET, lookup AGC_MODES mode])))"

definition setITT :: "string \<Rightarrow> camera \<Rightarrow> (error + int) \<times> camera" where
  "setITT mode cam =
     (case validate mode ITT_MODES of
        Inl e \<Rightarrow> (Inl e, cam)
      | Inr _ \<Rightarrow> send cam (fst ITT_SET) [snd ITT_SET, lookup ITT_MODES mode])"

definition setLUT :: "string \<Rightarrow> camera \<Rightarrow> (error + int) \<times> camera" where
  "setLUT mode cam =
     (case validate mode LUT_MODES of
        Inl e \<Rightarrow> (Inl e, cam)
      | Inr _ \<Rightarrow> send cam (fst LUT_SET) [snd LUT_SET, lookup LUT_MODES mode])"

definition setNUC :: "string \<Rightarrow> camera \<Rightarrow> (error + int) \<times> camera" where
  "setNUC mode cam =
     (case validate mode NUC_MODES of
        Inl e \<Rightarrow> (Inl e, cam)
      | Inr _ \<Rightarrow> send cam (fst NUC_SET) [snd NUC_SET, lookup NUC_MODES mode])"

text \<open>
  The mode getters: \<open>MAP[response.readUInt16LE(0)]\<close> on what the \<open>await\<close> of \<open>send\<close>
  gave. A property that the object does not have reads as \<open>undefined\<close>.
\<close>

datatype jsval = Undefined | Str string

definition readMode ::
  "(int \<rightharpoonup> string) \<Rightarrow> error + byte list option \<Rightarrow> error + jsval" where
  "readMode inverted confirmed =
     (case confirmed of
        Inl e \<Rightarrow> Inl e
      | Inr None \<Rightarrow> Inl TypeError
      | Inr (Some buf) \<Rightarrow>
          (case readUInt16LE buf 0 of
             Inl e \<Rightarrow> Inl e
           | Inr v \<Rightarrow> Inr (case inverted (int v) of None \<Rightarrow> Undefined | Some name \<Rightarrow> Str name)))"

definition getITT :: "camera \<Rightarrow> error + byte list option \<Rightarrow> (error + jsval) \<times> camera" where
  "getITT cam confirmed =
     (case send cam (fst ITT_GET) [snd ITT_GET] of
        (Inl e, cam') \<Rightarrow> (Inl e, cam')
      | (Inr _, cam') \<Rightarrow> (readMode ITT_MAP confirmed, cam'))"

definition getLUT :: "camera \<Rightarrow> error + byte list option \<Rightarrow> (error + jsval) \<times> camera" where
  "getLUT cam confirmed =
     (case send cam (fst LUT_GET) [snd LUT_GET] of
        (Inl e, cam') \<Rightarrow> (Inl e, cam')
      | (Inr _, cam') \<Rightarrow> (readMode LUT_MAP confirmed, cam'))"

definition getNUC :: "camera \<Rightarrow> error + byte list option \<Rightarrow> (error + jsval) \<times> camera" where
  "getNUC cam confirmed =
     (case send cam (fst NUC_GET) [snd NUC_GET] of
        (Inl e, cam') \<Rightarrow> (Inl e, cam')
      | (Inr _, cam') \<Rightarrow> (readMode NUC_MAP confirmed, cam'))"

section \<open>Facts about the buffer primitives\<close>

lemma addBytes_sum: "addBytes acc bs = acc + sum_list bs"
  by (induction bs arbitrary: acc) (simp_all add: add.assoc)

lemma sumBytes_take:
  "sumBytes buff n = (if n \<le> length buff then Some (sum_list (map unat (take n buff))) else None)"
proof (induction n)
  case 0
  show ?case by simp
next
  case (Suc n)
  show ?case
  proof (cases "Suc n \<le> length buff")
    case True
    then have "take (Suc n) buff = take n buff @ [buff ! n]"
      by (simp add: take_Suc_conv_app_nth)
    with True Suc show ?thesis by simp
  next
    case False
    with Suc show ?thesis by (simp split: option.splits)
  qed
qed

lemma unat_sum_list_byte: "unat (sum_list (bs :: byte list)) = sum_list (map unat bs) mod 256"
proof (induction bs)
  case Nil
  show ?case by simp
next
  case (Cons b bs)
  have "unat (b + sum_list bs) = (unat b + unat (sum_list bs)) mod 256"
    by (simp add: unat_word_ariths)
  also have "\<dots> = (unat b + sum_list (map unat bs) mod 256) mod 256"
    by (simp add: Cons.IH)
  also have "\<dots> = (unat b + sum_list (map unat bs)) mod 256"
    by (simp add: mod_add_right_eq)
  finally show ?case by simp
qed

section \<open>Facts about the packet codec\<close>

lemma parsePacket_in_range:
  assumes "10 + n < length buff"
  shows "parsePacket buff n =
     (if buff ! (10 + n) = sum_list (take (10 + n) buff)
      then Inr \<lparr> messageID = uint (buff ! 5),
                 response = (if n \<noteq> 0 then Some (take n (drop 10 buff)) else None) \<rparr>
      else Inl ChecksumMismatch)"
proof -
  have "(unat (buff ! (10 + n)) = sum_list (map unat (take (10 + n) buff)) mod 256)
        = (buff ! (10 + n) = sum_list (take (10 + n) buff))"
    by (metis unat_sum_list_byte word_unat_eq_iff)
  with assms show ?thesis
    by (simp add: parsePacket_def sumBytes_take subarray_def)
qed

lemma parsePacket_too_short:
  "length buff \<le> 10 + n \<Longrightarrow> parsePacket buff n = Inl ChecksumMismatch"
  by (simp add: parsePacket_def split: option.splits)

lemma sum_list_byte_update:
  "i < length xs \<Longrightarrow> sum_list (xs[i := b]) = sum_list xs - xs ! i + (b :: byte)"
proof (induction xs arbitrary: i)
  case Nil
  then show ?case by simp
next
  case (Cons x xs)
  then show ?case by (cases i) simp_all
qed

lemma update2_conv:
  "off + 2 \<le> length buf \<Longrightarrow>
   buf[off := a, off + 1 := b] = take off buf @ [a, b] @ drop (off + 2) buf"
proof (induction buf arbitrary: off)
  case Nil
  then show ?case by simp
next
  case (Cons x xs)
  show ?case
  proof (cases off)
    case 0
    with Cons.prems show ?thesis by (cases xs) simp_all
  next
    case (Suc k)
    with Cons.prems Cons.IH [of k] show ?thesis by simp
  qed
qed

lemma writeUInt16LE_ok:
  "0 \<le> v \<Longrightarrow> v \<le> 65535 \<Longrightarrow> off + 2 \<le> length buf \<Longrightarrow>
   writeUInt16LE buf v off = Inr (take off buf @ le16 v @ drop (off + 2) buf)"
  using update2_conv [of off buf "word_of_int v" "word_of_int (v div 256)"]
  by (simp add: writeUInt16LE_def le16_def)

lemma length_concat_le16: "length (concat (map le16 ds)) = 2 * length ds"
  by (induction ds) (simp_all add: le16_def)

text \<open>\<open>le16\<close> is what \<open>readUInt16LE\<close> reads back as the word.\<close>

lemma readUInt16LE_le16:
  assumes "0 \<le> v" and "v \<le> 65535"
  shows "readUInt16LE (le16 v) 0 = Inr (nat v)"
proof -
  have lo: "unat (word_of_int v :: byte) = nat (v mod 256)"
    by (simp add: unat_eq_nat_uint uint_word_of_int)
  have "v div 256 < 256" using assms(2) by simp
  moreover have "0 \<le> v div 256" using assms(1) by simp
  ultimately have hi: "unat (word_of_int (v div 256) :: byte) = nat (v div 256)"
    by (simp add: unat_eq_nat_uint uint_word_of_int)
  have "nat (v mod 256) + nat (v div 256) * 256 = nat v"
    using assms(1) by (simp add: nat_mod_distrib nat_div_distrib)
  then show ?thesis
    by (simp add: readUInt16LE_def le16_def lo hi)
qed

lemma writeWords_ok:
  "\<forall>w\<in>set ds. 0 \<le> w \<and> w \<le> 65535 \<Longrightarrow> 2 + 2 * i + 2 * length ds \<le> length buf \<Longrightarrow>
   writeWords buf ds i =
     Inr (take (2 + 2 * i) buf @ concat (map le16 ds) @ drop (2 + 2 * i + 2 * length ds) buf)"
proof (induction ds arbitrary: buf i)
  case Nil
  then show ?case by simp
next
  case (Cons d ds)
  let ?off = "2 + 2 * i"
  let ?buf' = "take ?off buf @ le16 d @ drop (?off + 2) buf"
  have w: "writeUInt16LE buf d (2 + i * 2) = Inr ?buf'"
    using Cons.prems by (simp add: writeUInt16LE_ok mult.commute)
  have len: "length ?buf' = length buf"
    using Cons.prems by (simp add: le16_def)
  have l2: "length (le16 d) = 2" by (simp add: le16_def)
  have t: "take (2 + 2 * (i + 1)) ?buf' = take ?off buf @ le16 d"
    using Cons.prems by (simp add: l2)
  have d: "drop (2 + 2 * (i + 1) + 2 * length ds) ?buf' = drop (?off + 2 * length (d # ds)) buf"
    using Cons.prems by (simp add: l2 add.commute add.left_commute)
  have "writeWords buf (d # ds) i = writeWords ?buf' ds (i + 1)"
    by (simp only: writeWords.simps w sum.case)
  also have "\<dots> = Inr (take (2 + 2 * (i + 1)) ?buf' @ concat (map le16 ds)
                        @ drop (2 + 2 * (i + 1) + 2 * length ds) ?buf')"
    using Cons.prems len by (intro Cons.IH) simp_all
  finally show ?case by (simp only: t d) simp
qed

lemma header_bytes:
  "header msgNo command subCommand =
     [3, 0, 1, word_of_int command, word_of_int subCommand, word_of_int msgNo, 0xff, 0xff]"
  by (simp add: header_def STD_HEADER_def)

lemma createPacket_ok:
  assumes r: "\<forall>w\<in>set data. 0 \<le> w \<and> w \<le> 65535" and l: "length data \<le> 32767"
  shows "createPacket msgNo command subCommand data =
     Inr (header msgNo command subCommand @ le16 (int (2 * length data))
          @ concat (map le16 data)
          @ [sum_list (header msgNo command subCommand @ le16 (int (2 * length data))
                       @ concat (map le16 data)), 2, 0, 0])"
proof (cases "data = []")
  case True
  then show ?thesis
    by (simp add: createPacket_def STD_HEADER_def STD_FOOTER_def Let_def addBytes_sum
        numeral_2_eq_2 header_bytes le16_def)
next
  case False
  let ?n = "length data"
  let ?b0 = "replicate (2 + ?n * 2) (0 :: byte)"
  have w0: "writeUInt16LE ?b0 (int (?n * 2)) 0 = Inr (le16 (int (?n * 2)) @ drop 2 ?b0)"
    using l writeUInt16LE_ok [of "int (?n * 2)" 0 ?b0] by simp
  have w1: "writeWords (le16 (int (?n * 2)) @ drop 2 ?b0) data 0
            = Inr (le16 (int (?n * 2)) @ concat (map le16 data))"
    using r writeWords_ok [of data 0 "le16 (int (?n * 2)) @ drop 2 ?b0"]
    by (simp add: le16_def)
  show ?thesis
    unfolding createPacket_def Let_def
    apply (simp only: False not_False_eq_True if_True w0 w1 sum.case)
    apply (simp add: STD_HEADER_def STD_FOOTER_def addBytes_sum header_bytes mult.commute)
    done
qed

lemma createPacket_no_data:
  "createPacket msgNo command subCommand [] =
     Inr [3, 0, 1, word_of_int command, word_of_int subCommand, word_of_int msgNo,
          0xff, 0xff, 0, 0,
          word_of_int (3 + 0 + 1 + command + subCommand + msgNo + 255 + 255 + 0 + 0),
          2, 0, 0]"
  by (simp add: createPacket_def STD_HEADER_def STD_FOOTER_def Let_def addBytes_sum
      numeral_2_eq_2)

section \<open>Properties of the packet codec\<close>

text \<open>
  C8. Encoding with an empty argument list gives, for every command, subcommand and
  sequence number, a packet of exactly 14 bytes: the header, the two bytes 0, 0 of the
  length prefix at offsets 8 and 9 with no payload after them, the checksum (the sum of
  the ten bytes before it, modulo 256) and the footer bytes 2, 0, 0.
\<close>

theorem createPacket_zero_arguments:
  "createPacket msgNo command subCommand [] =
     Inr [3, 0, 1, word_of_int command, word_of_int subCommand, word_of_int msgNo,
          0xff, 0xff, 0, 0,
          word_of_int (3 + 0 + 1 + command + subCommand + msgNo + 255 + 255 + 0 + 0),
          2, 0, 0]"
  by (rule createPacket_no_data)

text \<open>
  C9. On a buffer of at least \<open>11 + n\<close> bytes, \<open>parsePacket\<close> with declared data size
  \<open>n\<close> succeeds exactly when the byte at offset \<open>10 + n\<close> is the sum modulo 256 of the
  bytes before it, and fails with the checksum error otherwise. Nothing else is looked
  at: the result is byte 5 as the message number and the \<open>n\<close> bytes from offset 10 as
  the response (\<open>undefined\<close> for \<open>n = 0\<close>), whatever the header constants and the three
  bytes after the checksum are.
\<close>

theorem parsePacket_checks_only_checksum:
  assumes "11 + n \<le> length buff"
  shows "parsePacket buff n =
     (if unat (buff ! (10 + n)) = sum_list (map unat (take (10 + n) buff)) mod 256
      then Inr \<lparr> messageID = uint (buff ! 5),
                 response = (if n = 0 then None else Some (take n (drop 10 buff))) \<rparr>
      else Inl ChecksumMismatch)"
proof -
  have "(unat (buff ! (10 + n)) = sum_list (map unat (take (10 + n) buff)) mod 256)
        = (buff ! (10 + n) = sum_list (take (10 + n) buff))"
    by (metis unat_sum_list_byte word_unat_eq_iff)
  moreover have "10 + n < length buff" using assms by simp
  ultimately show ?thesis by (simp add: parsePacket_in_range)
qed

theorem parsePacket_checks_only_checksum_witness:
  "11 + 0 \<le> length [9, 9, 9, 9, 9, 7, 9, 9, 0, 0, 70, 7, 7, 7 :: byte]
   \<and> parsePacket [9, 9, 9, 9, 9, 7, 9, 9, 0, 0, 70, 7, 7, 7] 0
       = Inr \<lparr> messageID = 7, response = None \<rparr>"
  using parsePacket_checks_only_checksum [of 0 "[9, 9, 9, 9, 9, 7, 9, 9, 0, 0, 70, 7, 7, 7]"]
  by simp

text \<open>
  C4. Take a packet whose checksum byte at offset \<open>10 + n\<close> is the sum modulo 256 of the
  bytes before it. Changing any one byte in front of the checksum to a different value
  makes \<open>parsePacket\<close>, with the same declared data size, fail with the checksum error.
\<close>

theorem parsePacket_detects_single_byte_corruption:
  assumes "10 + n < length packet"
    and "unat (packet ! (10 + n)) = sum_list (map unat (take (10 + n) packet)) mod 256"
    and "i < 10 + n" and "b \<noteq> packet ! i"
  shows "parsePacket (packet[i := b]) n = Inl ChecksumMismatch"
proof -
  have ck: "packet ! (10 + n) = sum_list (take (10 + n) packet)"
    using assms(2) by (metis unat_sum_list_byte word_unat_eq_iff)
  have "sum_list (take (10 + n) (packet[i := b]))
        = sum_list (take (10 + n) packet) - packet ! i + b"
    using assms(1,3) by (simp add: take_update_swap sum_list_byte_update)
  moreover have "packet[i := b] ! (10 + n) = packet ! (10 + n)"
    using assms(3) by simp
  ultimately have "packet[i := b] ! (10 + n) \<noteq> sum_list (take (10 + n) (packet[i := b]))"
    using ck assms(4) by simp
  then show ?thesis
    using assms(1) by (simp add: parsePacket_in_range)
qed

theorem parsePacket_detects_single_byte_corruption_witness:
  "10 + 0 < length [3, 0, 1, 4, 5, 1, 255, 255, 0, 0, 12, 2, 0, 0 :: byte]
   \<and> (3 :: nat) < 10 + 0 \<and> (9 :: byte) \<noteq> [3, 0, 1, 4, 5, 1, 255, 255, 0, 0, 12, 2, 0, 0] ! 3
   \<and> parsePacket [3, 0, 1, 9, 5, 1, 255, 255, 0, 0, 12, 2, 0, 0] 0 = Inl ChecksumMismatch"
  using parsePacket_detects_single_byte_corruption
          [of 0 "[3, 0, 1, 4, 5, 1, 255, 255, 0, 0, 12, 2, 0, 0]" 3 9]
  by simp

text \<open>
  C1, as the code has it. For a sequence number in 0..255 and at most 32767 argument
  words, each in 0..65535, \<open>createPacket\<close> gives a packet of \<open>14 + 2 * count\<close> bytes, and
  \<open>parsePacket\<close> on it with declared data size \<open>2 * count\<close> succeeds with the original
  sequence number and the argument words as little-endian 16-bit words; with no
  argument words the response is \<open>undefined\<close>. (The length prefix is a 16-bit field:
  with more than 32767 words \<open>createPacket\<close> raises a range error.)
\<close>

theorem createPacket_parsePacket_roundtrip:
  assumes "0 \<le> msgNo" and "msgNo < 256"
    and "\<forall>w\<in>set data. 0 \<le> w \<and> w \<le> 65535" and "length data \<le> 32767"
  shows "\<exists>packet. createPacket msgNo command subCommand data = Inr packet
           \<and> length packet = 14 + 2 * length data
           \<and> parsePacket packet (2 * length data) =
               Inr \<lparr> messageID = msgNo,
                     response = (if data = [] then None else Some (concat (map le16 data))) \<rparr>"
proof -
  let ?h = "header msgNo command subCommand"
  let ?msg = "?h @ le16 (int (2 * length data)) @ concat (map le16 data)"
  let ?p = "?msg @ [sum_list ?msg, 2, 0, 0]"
  have lm: "length ?msg = 10 + 2 * length data"
    by (simp add: header_bytes le16_def length_concat_le16)
  have c: "createPacket msgNo command subCommand data = Inr ?p"
    using assms(3,4) by (simp add: createPacket_ok)
  have n: "?p ! (10 + 2 * length data) = sum_list ?msg"
    using lm by (metis nth_append_length)
  have t: "take (10 + 2 * length data) ?p = ?msg"
    using lm by (metis append_eq_conv_conj)
  have five: "?p ! 5 = word_of_int msgNo"
    by (simp add: header_bytes)
  have u: "uint (word_of_int msgNo :: byte) = msgNo"
    using assms(1,2) by (simp add: uint_word_of_int)
  have pay: "take (2 * length data) (drop 10 ?p) = concat (map le16 data)"
    by (simp add: header_bytes le16_def length_concat_le16)
  have "parsePacket ?p (2 * length data) =
          Inr \<lparr> messageID = msgNo,
                response = (if data = [] then None else Some (concat (map le16 data))) \<rparr>"
    using lm by (subst parsePacket_in_range) (simp_all only: n t five u pay, simp_all)
  with c lm show ?thesis by simp
qed

theorem createPacket_parsePacket_roundtrip_witness:
  "(0 :: int) \<le> 7 \<and> (7 :: int) < 256 \<and> set [4 :: int] \<subseteq> {0..65535}
   \<and> length [4 :: int] \<le> 32767
   \<and> (\<exists>packet. createPacket 7 7 5 [4] = Inr packet \<and> length packet = 16
        \<and> parsePacket packet 2 = Inr \<lparr> messageID = 7, response = Some [4, 0] \<rparr>)"
  using createPacket_parsePacket_roundtrip [of 7 "[4]" 7 5]
  by (simp add: le16_def)

theorem createPacket_roundtrip_counterexample:
  "createPacket 1 7 5 (replicate 32768 0) = Inl RangeError"
  by (simp add: createPacket_def Let_def writeUInt16LE_def)

section \<open>Facts about the stream reassembler\<close>

lemma readUInt16LE_append:
  "off + 2 \<le> length buf \<Longrightarrow> readUInt16LE (buf @ rest) off = readUInt16LE buf off"
  by (simp add: readUInt16LE_def nth_append)

lemma readUInt16LE_defined:
  "off + 2 \<le> length buf \<Longrightarrow> \<exists>n. readUInt16LE buf off = Inr n"
  by (simp add: readUInt16LE_def)

lemma receive_short:
  assumes "receiveBuffer cam @ data = buf" and "length buf < 14"
  shows "receive cam data = (Waiting, cam\<lparr>receiveBuffer := buf\<rparr>)"
  using assms by (simp add: receive_def Let_def)

lemma receive_incomplete:
  assumes "receiveBuffer cam @ data = buf" and "14 \<le> length buf"
    and "readUInt16LE buf 8 = Inr n" and "length buf < 14 + n"
  shows "receive cam data = (Waiting, cam\<lparr>receiveBuffer := buf\<rparr>)"
  using assms by (simp add: receive_def Let_def)

lemma receive_complete:
  assumes "receiveBuffer cam @ data = buf" and "14 \<le> length buf"
    and "readUInt16LE buf 8 = Inr n" and "14 + n \<le> length buf"
  shows "receive cam data =
     (case parsePacket (take (14 + n) buf) n of
        Inl e \<Rightarrow> (Thrown (Some (take (14 + n) buf)) e, cam\<lparr>receiveBuffer := drop (14 + n) buf\<rparr>)
      | Inr r \<Rightarrow> (Emitted (take (14 + n) buf) (messageID r) (response r),
                  cam\<lparr>receiveBuffer := drop (14 + n) buf,
                       listeners := filter (\<lambda>k. k \<noteq> messageID r) (listeners cam)\<rparr>))"
  using assms by (simp add: receive_def Let_def subarray_def split: sum.splits)

text \<open>The three ways a call of \<open>receive\<close> can go, on the buffer after the append.\<close>

lemma receive_cases:
  assumes "receiveBuffer cam @ data = buf"
  obtains
    (waiting) "receive cam data = (Waiting, cam\<lparr>receiveBuffer := buf\<rparr>)"
  | (thrown) n e where "readUInt16LE buf 8 = Inr n" and "14 + n \<le> length buf"
      and "receive cam data =
             (Thrown (Some (take (14 + n) buf)) e, cam\<lparr>receiveBuffer := drop (14 + n) buf\<rparr>)"
  | (emitted) n r where "readUInt16LE buf 8 = Inr n" and "14 + n \<le> length buf"
      and "parsePacket (take (14 + n) buf) n = Inr r"
      and "receive cam data =
             (Emitted (take (14 + n) buf) (messageID r) (response r),
              cam\<lparr>receiveBuffer := drop (14 + n) buf,
                   listeners := filter (\<lambda>k. k \<noteq> messageID r) (listeners cam)\<rparr>)"
proof (cases "length buf < 14")
  case True
  with assms waiting show ?thesis by (simp add: receive_short)
next
  case False
  then have ge: "14 \<le> length buf" by simp
  then obtain n where n: "readUInt16LE buf 8 = Inr n"
    using readUInt16LE_defined [of 8 buf] by auto
  show ?thesis
  proof (cases "length buf < 14 + n")
    case True
    with assms ge n waiting show ?thesis by (simp add: receive_incomplete)
  next
    case False
    then have full: "14 + n \<le> length buf" by simp
    note rc = receive_complete [OF assms ge n full]
    show ?thesis
    proof (cases "parsePacket (take (14 + n) buf) n")
      case (Inl e)
      with rc n full thrown show ?thesis by simp
    next
      case (Inr r)
      with rc n full emitted show ?thesis by simp
    qed
  qed
qed

lemma receive_conserves_on:
  assumes "receiveBuffer cam @ data = buf"
  shows "slice (fst (receive cam data)) @ receiveBuffer (snd (receive cam data)) = buf"
  by (rule receive_cases [OF assms]) simp_all

lemma receive_conserves:
  "slice (fst (receive cam data)) @ receiveBuffer (snd (receive cam data))
     = receiveBuffer cam @ data"
  by (rule receive_conserves_on [OF refl])

lemma receive_slice_length_on:
  assumes "receiveBuffer cam @ data = buf"
  shows "fst (receive cam data) = Waiting
   \<or> (\<exists>n. readUInt16LE buf 8 = Inr n \<and> length (slice (fst (receive cam data))) = 14 + n)"
  by (rule receive_cases [OF assms]) simp_all

lemma receive_slice_length:
  "fst (receive cam data) = Waiting
   \<or> (\<exists>n. readUInt16LE (receiveBuffer cam @ data) 8 = Inr n
          \<and> length (slice (fst (receive cam data))) = 14 + n)"
  by (rule receive_slice_length_on [OF refl])

lemma receiveAll_conserves:
  "concat (map slice (fst (receiveAll cam chunks))) @ receiveBuffer (snd (receiveAll cam chunks))
     = receiveBuffer cam @ concat chunks"
proof (induction chunks arbitrary: cam)
  case Nil
  show ?case by simp
next
  case (Cons c cs)
  obtain r cam' where step: "receive cam c = (r, cam')" by (cases "receive cam c")
  obtain rs cam'' where rest: "receiveAll cam' cs = (rs, cam'')" by (cases "receiveAll cam' cs")
  have one: "slice r @ receiveBuffer cam' = receiveBuffer cam @ c"
    using receive_conserves [of cam c] step by simp
  have more: "concat (map slice rs) @ receiveBuffer cam'' = receiveBuffer cam' @ concat cs"
    using Cons.IH [of cam'] rest by simp
  have "concat (map slice (r # rs)) @ receiveBuffer cam''
          = slice r @ (concat (map slice rs) @ receiveBuffer cam'')"
    by simp
  also have "\<dots> = (slice r @ receiveBuffer cam') @ concat cs"
    by (simp add: more)
  also have "\<dots> = receiveBuffer cam @ concat (c # cs)"
    by (simp add: one)
  finally show ?case by (simp add: step rest)
qed

lemma receive_prefix_waiting:
  assumes n: "readUInt16LE p 8 = Inr n" and len: "length p = 14 + n"
    and p: "receiveBuffer cam @ data @ rest = p" and rest: "rest \<noteq> []"
  shows "receive cam data = (Waiting, cam\<lparr>receiveBuffer := receiveBuffer cam @ data\<rparr>)"
proof -
  define buf where "buf = receiveBuffer cam @ data"
  then have b: "receiveBuffer cam @ data = buf" by simp
  have pb: "p = buf @ rest" using p by (simp add: buf_def)
  have shorter: "length buf < length p" using pb rest by simp
  have "receive cam data = (Waiting, cam\<lparr>receiveBuffer := buf\<rparr>)"
  proof (cases "length buf < 14")
    case True
    with b show ?thesis by (rule receive_short)
  next
    case False
    then have ge: "14 \<le> length buf" by simp
    have "readUInt16LE p 8 = readUInt16LE buf 8"
      using ge pb readUInt16LE_append [of 8 buf rest] by simp
    then have rd: "readUInt16LE buf 8 = Inr n" using n by simp
    have "length buf < 14 + n" using shorter len by simp
    with b ge rd show ?thesis by (rule receive_incomplete)
  qed
  then show ?thesis by (simp add: buf_def)
qed

lemma receive_whole:
  assumes n: "readUInt16LE p 8 = Inr n" and len: "length p = 14 + n"
    and ok: "parsePacket p n = Inr r" and p: "receiveBuffer cam @ data = p"
  shows "receive cam data =
     (Emitted p (messageID r) (response r),
      cam\<lparr>receiveBuffer := [], listeners := filter (\<lambda>k. k \<noteq> messageID r) (listeners cam)\<rparr>)"
  using receive_complete [OF p _ n] len ok by simp

lemma receiveAll_fragments:
  assumes n: "readUInt16LE p 8 = Inr n" and len: "length p = 14 + n"
    and ok: "parsePacket p n = Inr r"
  shows "receiveBuffer cam @ concat chunks = p \<Longrightarrow> \<forall>c\<in>set chunks. c \<noteq> [] \<Longrightarrow> chunks \<noteq> [] \<Longrightarrow>
     receiveAll cam chunks =
       (replicate (length chunks - 1) Waiting @ [Emitted p (messageID r) (response r)],
        cam\<lparr>receiveBuffer := [], listeners := filter (\<lambda>k. k \<noteq> messageID r) (listeners cam)\<rparr>)"
proof (induction chunks arbitrary: cam)
  case Nil
  then show ?case by simp
next
  case (Cons c cs)
  show ?case
  proof (cases "cs = []")
    case True
    then have "receiveBuffer cam @ c = p" using Cons.prems(1) by simp
    then show ?thesis
      using True receive_whole [OF n len ok, of cam c] by simp
  next
    case False
    then have ne: "concat cs \<noteq> []" using Cons.prems(2) by (cases cs) auto
    have w: "receive cam c = (Waiting, cam\<lparr>receiveBuffer := receiveBuffer cam @ c\<rparr>)"
      using Cons.prems(1) ne receive_prefix_waiting [OF n len, of cam c "concat cs"] by simp
    let ?cam' = "cam\<lparr>receiveBuffer := receiveBuffer cam @ c\<rparr>"
    have ih: "receiveAll ?cam' cs =
       (replicate (length cs - 1) Waiting @ [Emitted p (messageID r) (response r)],
        ?cam'\<lparr>receiveBuffer := [], listeners := filter (\<lambda>k. k \<noteq> messageID r) (listeners ?cam')\<rparr>)"
      using Cons.prems False by (intro Cons.IH) simp_all
    have l: "length (c # cs) - 1 = Suc (length cs - 1)" using False by (cases cs) simp_all
    show ?thesis
      by (simp only: receiveAll.simps w ih prod.case l replicate_Suc append_Cons) simp
  qed
qed

section \<open>Properties of the stream reassembler\<close>

text \<open>
  C10. Whatever chunks arrive, after the calls of \<open>receive\<close> the packets cut out so far,
  in order, followed by what is left in the receive buffer, are exactly the buffer at
  the start followed by the chunks: no byte is lost, duplicated or reordered. A single
  call either cuts nothing out, or cuts out exactly 14 plus the declared data size
  bytes (the 16-bit value at offset 8), taken from the front of the buffer.
\<close>

theorem receive_byte_conservation:
  "concat (map slice (fst (receiveAll cam chunks))) @ receiveBuffer (snd (receiveAll cam chunks))
     = receiveBuffer cam @ concat chunks
   \<and> slice (fst (receive cam data)) @ receiveBuffer (snd (receive cam data))
       = receiveBuffer cam @ data
   \<and> (fst (receive cam data) = Waiting
       \<or> (\<exists>n. readUInt16LE (receiveBuffer cam @ data) 8 = Inr n
              \<and> length (slice (fst (receive cam data))) = 14 + n))"
  using receiveAll_conserves [of cam chunks] receive_conserves [of cam data]
    receive_slice_length [of cam data]
  by simp

theorem receive_byte_conservation_witness:
  "concat (map slice (fst (receiveAll newCamera
       [[3, 0, 1, 4, 5], [1, 255, 255, 0, 0, 12, 2, 0, 0, 3]])))
     @ receiveBuffer (snd (receiveAll newCamera
       [[3, 0, 1, 4, 5], [1, 255, 255, 0, 0, 12, 2, 0, 0, 3]]))
     = [3, 0, 1, 4, 5, 1, 255, 255, 0, 0, 12, 2, 0, 0, 3]"
  using receive_byte_conservation
          [of newCamera "[[3, 0, 1, 4, 5], [1, 255, 255, 0, 0, 12, 2, 0, 0, 3]]" "[]"]
  by (simp add: newCamera_def)

text \<open>
  C5. Take a valid packet: 14 plus its declared data size bytes long, with the right
  checksum. Cut it into non-empty chunks in any way and give them to \<open>receive\<close> one
  after the other, starting from an empty receive buffer. Every call but the last
  waits; the last one emits exactly what a single call on the whole packet emits, the
  message number and response of the packet, and the camera ends in the same state,
  with an empty receive buffer.
\<close>

theorem receive_fragmentation_invariance:
  assumes "readUInt16LE p 8 = Inr n" and "length p = 14 + n" and "parsePacket p n = Inr r"
    and "receiveBuffer cam = []" and "concat chunks = p" and "\<forall>c\<in>set chunks. c \<noteq> []"
  shows "receiveAll cam chunks
           = (replicate (length chunks - 1) Waiting @ [fst (receive cam p)], snd (receive cam p))
         \<and> fst (receive cam p) = Emitted p (messageID r) (response r)
         \<and> receiveBuffer (snd (receive cam p)) = []"
proof -
  have "p \<noteq> []" using assms(2) by auto
  then have ne: "chunks \<noteq> []" using assms(5) by auto
  have whole: "receive cam p =
     (Emitted p (messageID r) (response r),
      cam\<lparr>receiveBuffer := [], listeners := filter (\<lambda>k. k \<noteq> messageID r) (listeners cam)\<rparr>)"
    using receive_whole [OF assms(1,2,3), of cam p] assms(4) by simp
  have "receiveAll cam chunks =
     (replicate (length chunks - 1) Waiting @ [Emitted p (messageID r) (response r)],
      cam\<lparr>receiveBuffer := [], listeners := filter (\<lambda>k. k \<noteq> messageID r) (listeners cam)\<rparr>)"
    using receiveAll_fragments [OF assms(1,2,3), of cam chunks] assms(4,5,6) ne by simp
  with whole show ?thesis by simp
qed

theorem receive_fragmentation_invariance_witness:
  "receiveAll newCamera [[3], [0, 1], [4, 5], [1, 255, 255], [0, 0], [12, 2], [0, 0]]
     = ([Waiting, Waiting, Waiting, Waiting, Waiting, Waiting,
         Emitted [3, 0, 1, 4, 5, 1, 255, 255, 0, 0, 12, 2, 0, 0] 1 None], newCamera)
   \<and> receive newCamera [3, 0, 1, 4, 5, 1, 255, 255, 0, 0, 12, 2, 0, 0]
     = (Emitted [3, 0, 1, 4, 5, 1, 255, 255, 0, 0, 12, 2, 0, 0] 1 None, newCamera)"
proof -
  let ?p = "[3, 0, 1, 4, 5, 1, 255, 255, 0, 0, 12, 2, 0, 0] :: byte list"
  have a: "readUInt16LE ?p 8 = Inr 0" by (simp add: readUInt16LE_def)
  have b: "length ?p = 14 + 0" by simp
  have c: "parsePacket ?p 0 = Inr \<lparr> messageID = 1, response = None \<rparr>"
    by (simp add: parsePacket_in_range)
  have d: "receiveBuffer newCamera = []" by (simp add: newCamera_def)
  have e: "concat [[3], [0, 1], [4, 5], [1, 255, 255], [0, 0], [12, 2], [0, 0]] = ?p" by simp
  have f: "\<forall>c\<in>set [[3], [0, 1], [4, 5], [1, 255, 255], [0, 0], [12, 2], [0, 0 :: byte]]. c \<noteq> []"
    by simp
  have w: "receive newCamera ?p = (Emitted ?p 1 None, newCamera)"
    using receive_whole [OF a b c, of newCamera ?p] by (simp add: newCamera_def)
  show ?thesis
    using receive_fragmentation_invariance [OF a b c d e f] w
    by (simp add: numeral_eq_Suc)
qed

text \<open>
  C2. The packets of two commands without arguments, numbered 1 and 2, arrive in one
  chunk on a fresh camera. The call of \<open>receive\<close> for that chunk emits the confirmation
  of the first packet only; the second packet stays in the receive buffer, whole and
  undecoded, until another chunk arrives.
\<close>

theorem receive_two_packets_in_one_chunk:
  "createPacket 1 4 5 [] = Inr [3, 0, 1, 4, 5, 1, 255, 255, 0, 0, 12, 2, 0, 0]
   \<and> createPacket 2 4 5 [] = Inr [3, 0, 1, 4, 5, 2, 255, 255, 0, 0, 13, 2, 0, 0]
   \<and> receive newCamera ([3, 0, 1, 4, 5, 1, 255, 255, 0, 0, 12, 2, 0, 0]
                          @ [3, 0, 1, 4, 5, 2, 255, 255, 0, 0, 13, 2, 0, 0])
       = (Emitted [3, 0, 1, 4, 5, 1, 255, 255, 0, 0, 12, 2, 0, 0] 1 None,
          newCamera\<lparr>receiveBuffer := [3, 0, 1, 4, 5, 2, 255, 255, 0, 0, 13, 2, 0, 0]\<rparr>)"
proof -
  let ?p1 = "[3, 0, 1, 4, 5, 1, 255, 255, 0, 0, 12, 2, 0, 0] :: byte list"
  let ?p2 = "[3, 0, 1, 4, 5, 2, 255, 255, 0, 0, 13, 2, 0, 0] :: byte list"
  have c1: "createPacket 1 4 5 [] = Inr ?p1" by (simp add: createPacket_no_data)
  have c2: "createPacket 2 4 5 [] = Inr ?p2" by (simp add: createPacket_no_data)
  have rd: "readUInt16LE (?p1 @ ?p2) 8 = Inr 0" by (simp add: readUInt16LE_def)
  have pp: "parsePacket ?p1 0 = Inr \<lparr> messageID = 1, response = None \<rparr>"
    by (simp add: parsePacket_in_range)
  have "receive newCamera (?p1 @ ?p2) = (Emitted ?p1 1 None, newCamera\<lparr>receiveBuffer := ?p2\<rparr>)"
    using receive_complete [of newCamera "?p1 @ ?p2" "?p1 @ ?p2" 0] rd pp
    by (simp add: newCamera_def)
  with c1 c2 show ?thesis by simp
qed

section \<open>Facts about sending\<close>

lemma send_no_data:
  "send cam command [subCommand] =
     (Inr (messageNumber cam),
      cam\<lparr> listeners := listeners cam @ [messageNumber cam],
           messageNumber := messageNumber cam + 1,
           sent := sent cam @
             [[3, 0, 1, word_of_int command, word_of_int subCommand,
               word_of_int (messageNumber cam), 0xff, 0xff, 0, 0,
               word_of_int (3 + 0 + 1 + command + subCommand + messageNumber cam
                            + 255 + 255 + 0 + 0),
               2, 0, 0]] \<rparr>)"
  by (simp add: send_def createPacket_no_data)

lemma messageNumber_after_sends:
  "messageNumber (((\<lambda>c. snd (send c command [subCommand])) ^^ k) cam) = messageNumber cam + int k"
  by (induction k) (simp_all add: send_no_data)

lemma ITT_MAP_apply:
  "ITT_MAP v = (if v = 4 then Some ''two-cycle'' else if v = 3 then Some ''s-curve''
                else if v = 2 then Some ''inverse'' else if v = 1 then Some ''linear'' else None)"
  by (simp add: ITT_MAP_def invertMap_def ITT_MODES_def)

lemma NUC_MAP_apply:
  "NUC_MAP v = (if v = 4 then Some ''hot'' else if v = 3 then Some ''warm''
                else if v = 2 then Some ''mid'' else if v = 1 then Some ''cold'' else None)"
  by (simp add: NUC_MAP_def invertMap_def NUC_MODES_def)

lemma LUT_MAP_apply:
  "LUT_MAP v = (if v = 3 then Some ''sepia'' else if v = 2 then Some ''color''
                else if v = 1 then Some ''black-and-white'' else None)"
  by (simp add: LUT_MAP_def invertMap_def LUT_MODES_def)

section \<open>Properties of sequence numbers, validation and mode getters\<close>

text \<open>
  C3. On a fresh camera the counter starts at 1 and each \<open>send\<close> adds 1 to it without
  ever wrapping. After 255 sends it is 256: the next \<open>send\<close> waits for the event
  \<open>confirm/256\<close>, while the packet it hands to the transport carries the sequence
  number 0 in byte 5, and the counter goes on to 257.
\<close>

theorem send_sequence_number_after_255:
  "messageNumber (((\<lambda>c. snd (send c 4 [1])) ^^ 255) newCamera) = 256
   \<and> fst (send (((\<lambda>c. snd (send c 4 [1])) ^^ 255) newCamera) 4 [1]) = Inr 256
   \<and> last (listeners (snd (send (((\<lambda>c. snd (send c 4 [1])) ^^ 255) newCamera) 4 [1]))) = 256
   \<and> uint (last (sent (snd (send (((\<lambda>c. snd (send c 4 [1])) ^^ 255) newCamera) 4 [1]))) ! 5) = 0
   \<and> messageNumber (snd (send (((\<lambda>c. snd (send c 4 [1])) ^^ 255) newCamera) 4 [1])) = 257"
proof -
  define cam where "cam = ((\<lambda>c. snd (send c 4 [1])) ^^ 255) newCamera"
  have m: "messageNumber cam = 256"
    unfolding cam_def by (simp add: messageNumber_after_sends newCamera_def)
  show ?thesis
    unfolding cam_def [symmetric] by (simp add: send_no_data m)
qed
lemma validate_key:
  "distinct (map fst options) \<Longrightarrow> (k, v) \<in> set options \<Longrightarrow> validate k options = Inr v"
  by (force simp: validate_def lookup_def)

lemma validate_not_key:
  "opt \<notin> set (map fst options) \<Longrightarrow>
   validate opt options = Inl (InvalidOption (invalidMessage opt options))"
  by (simp add: validate_def)

lemma invalidMessage_AGC:
  \<open>invalidMessage mode AGC_MODES =
     ''Option "'' @ mode @ ''" is invalid. Available options are ["off", "full", "midsize", "center", "horizon"]''\<close>
  by (simp add: invalidMessage_def AGC_MODES_def quoted_def)

lemma invalidMessage_ITT:
  \<open>invalidMessage mode ITT_MODES =
     ''Option "'' @ mode @ ''" is invalid. Available options are ["linear", "inverse", "s-curve", "two-cycle"]''\<close>
  by (simp add: invalidMessage_def ITT_MODES_def quoted_def)

lemma invalidMessage_LUT:
  \<open>invalidMessage mode LUT_MODES =
     ''Option "'' @ mode @ ''" is invalid. Available options are ["black-and-white", "color", "sepia"]''\<close>
  by (simp add: invalidMessage_def LUT_MODES_def quoted_def)

lemma invalidMessage_NUC:
  \<open>invalidMessage mode NUC_MODES =
     ''Option "'' @ mode @ ''" is invalid. Available options are ["cold", "mid", "warm", "hot"]''\<close>
  by (simp add: invalidMessage_def NUC_MODES_def quoted_def)

text \<open>
  C6. Each of \<open>setAGC\<close>, \<open>setITT\<close>, \<open>setLUT\<close> and \<open>setNUC\<close>, called with a string that
  is not a key of its option map, fails with the invalid-option error whose message
  lists every option name of that map, and leaves the camera as it was: no packet is
  built, no listener is registered and nothing is handed to the transport. For a
  string that is a key, \<open>validate\<close> returns the numeric value of that key.
\<close>

theorem setters_validate_before_sending:
  \<open>(mode \<notin> set (map fst AGC_MODES) \<longrightarrow>
      setAGC mode cam confirmed =
        (Inl (InvalidOption (''Option "'' @ mode @ ''" is invalid. Available options are ["off", "full", "midsize", "center", "horizon"]'')), cam))
   \<and> (mode \<notin> set (map fst ITT_MODES) \<longrightarrow>
      setITT mode cam =
        (Inl (InvalidOption (''Option "'' @ mode @ ''" is invalid. Available options are ["linear", "inverse", "s-curve", "two-cycle"]'')), cam))
   \<and> (mode \<notin> set (map fst LUT_MODES) \<longrightarrow>
      setLUT mode cam =
        (Inl (InvalidOption (''Option "'' @ mode @ ''" is invalid. Available options are ["black-and-white", "color", "sepia"]'')), cam))
   \<and> (mode \<notin> set (map fst NUC_MODES) \<longrightarrow>
      setNUC mode cam =
        (Inl (InvalidOption (''Option "'' @ mode @ ''" is invalid. Available options are ["cold", "mid", "warm", "hot"]'')), cam))
   \<and> (\<forall>options \<in> {AGC_MODES, ITT_MODES, LUT_MODES, NUC_MODES}.
        \<forall>(k, v) \<in> set options. validate k options = Inr v)\<close>
proof -
  have d: "distinct (map fst AGC_MODES)" "distinct (map fst ITT_MODES)"
    "distinct (map fst LUT_MODES)" "distinct (map fst NUC_MODES)"
    by (simp_all add: AGC_MODES_def ITT_MODES_def LUT_MODES_def NUC_MODES_def)
  have keys: "\<forall>options \<in> {AGC_MODES, ITT_MODES, LUT_MODES, NUC_MODES}.
        \<forall>(k, v) \<in> set options. validate k options = Inr v"
    using d by (auto intro: validate_key)
  have agc: "mode \<notin> set (map fst AGC_MODES) \<longrightarrow>
      setAGC mode cam confirmed = (Inl (InvalidOption (invalidMessage mode AGC_MODES)), cam)"
    by (simp add: setAGC_def validate_not_key)
  have itt: "mode \<notin> set (map fst ITT_MODES) \<longrightarrow>
      setITT mode cam = (Inl (InvalidOption (invalidMessage mode ITT_MODES)), cam)"
    by (simp add: setITT_def validate_not_key)
  have lut: "mode \<notin> set (map fst LUT_MODES) \<longrightarrow>
      setLUT mode cam = (Inl (InvalidOption (invalidMessage mode LUT_MODES)), cam)"
    by (simp add: setLUT_def validate_not_key)
  have nuc: "mode \<notin> set (map fst NUC_MODES) \<longrightarrow>
      setNUC mode cam = (Inl (InvalidOption (invalidMessage mode NUC_MODES)), cam)"
    by (simp add: setNUC_def validate_not_key)
  show ?thesis
    using agc itt lut nuc keys
    unfolding invalidMessage_AGC invalidMessage_ITT invalidMessage_LUT invalidMessage_NUC
    by blast
qed

theorem setters_validate_before_sending_witness:
  \<open>setAGC ''fake'' newCamera (Inr None) =
     (Inl (InvalidOption ''Option "fake" is invalid. Available options are ["off", "full", "midsize", "center", "horizon"]''), newCamera)
   \<and> setITT ''fake'' newCamera =
     (Inl (InvalidOption ''Option "fake" is invalid. Available options are ["linear", "inverse", "s-curve", "two-cycle"]''), newCamera)
   \<and> setLUT ''fake'' newCamera =
     (Inl (InvalidOption ''Option "fake" is invalid. Available options are ["black-and-white", "color", "sepia"]''), newCamera)
   \<and> setNUC ''fake'' newCamera =
     (Inl (InvalidOption ''Option "fake" is invalid. Available options are ["cold", "mid", "warm", "hot"]''), newCamera)
   \<and> validate ''off'' AGC_MODES = Inr (- 1)
   \<and> validate ''hot'' NUC_MODES = Inr 4\<close>
proof -
  have a: "''fake'' \<notin> set (map fst AGC_MODES)" by (simp add: AGC_MODES_def)
  have i: "''fake'' \<notin> set (map fst ITT_MODES)" by (simp add: ITT_MODES_def)
  have l: "''fake'' \<notin> set (map fst LUT_MODES)" by (simp add: LUT_MODES_def)
  have n: "''fake'' \<notin> set (map fst NUC_MODES)" by (simp add: NUC_MODES_def)
  have ka: "(''off'', - 1) \<in> set AGC_MODES" by (simp add: AGC_MODES_def)
  have kn: "(''hot'', 4) \<in> set NUC_MODES" by (simp add: NUC_MODES_def)
  note t = setters_validate_before_sending [of "''fake''" newCamera "Inr None"]
  from t a have \<open>setAGC ''fake'' newCamera (Inr None) =
     (Inl (InvalidOption (''Option "'' @ ''fake'' @ ''" is invalid. Available options are ["off", "full", "midsize", "center", "horizon"]'')), newCamera)\<close>
    by blast
  moreover from t i have \<open>setITT ''fake'' newCamera =
     (Inl (InvalidOption (''Option "'' @ ''fake'' @ ''" is invalid. Available options are ["linear", "inverse", "s-curve", "two-cycle"]'')), newCamera)\<close>
    by blast
  moreover from t l have \<open>setLUT ''fake'' newCamera =
     (Inl (InvalidOption (''Option "'' @ ''fake'' @ ''" is invalid. Available options are ["black-and-white", "color", "sepia"]'')), newCamera)\<close>
    by blast
  moreover from t n have \<open>setNUC ''fake'' newCamera =
     (Inl (InvalidOption (''Option "'' @ ''fake'' @ ''" is invalid. Available options are ["cold", "mid", "warm", "hot"]'')), newCamera)\<close>
    by blast
  moreover from t ka have "validate ''off'' AGC_MODES = Inr (- 1)" by blast
  moreover from t kn have "validate ''hot'' NUC_MODES = Inr 4" by blast
  ultimately show ?thesis by simp
qed

text \<open>
  C7, as the code has it. When the 16-bit value at the start of the response is not a
  value of the option map, \<open>getITT\<close>, \<open>getLUT\<close> and \<open>getNUC\<close> return \<open>undefined\<close>: the
  lookup in the inverted map finds no property, and nothing replaces the missing
  result by an outcome of its own.
\<close>

theorem getters_unmapped_value_undefined:
  assumes "readUInt16LE buf 0 = Inr v"
  shows "(int v \<notin> snd ` set ITT_MODES \<longrightarrow> fst (getITT cam (Inr (Some buf))) = Inr Undefined)
       \<and> (int v \<notin> snd ` set LUT_MODES \<longrightarrow> fst (getLUT cam (Inr (Some buf))) = Inr Undefined)
       \<and> (int v \<notin> snd ` set NUC_MODES \<longrightarrow> fst (getNUC cam (Inr (Some buf))) = Inr Undefined)"
  using assms
  by (simp add: getITT_def getLUT_def getNUC_def send_no_data readMode_def
      ITT_MAP_apply LUT_MAP_apply NUC_MAP_apply ITT_MODES_def LUT_MODES_def NUC_MODES_def
      ITT_GET_def LUT_GET_def NUC_GET_def)

theorem getters_unmapped_value_undefined_witness:
  "fst (getITT newCamera (Inr (Some [9, 0]))) = Inr Undefined
   \<and> fst (getLUT newCamera (Inr (Some [4, 0]))) = Inr Undefined
   \<and> fst (getNUC newCamera (Inr (Some [0, 1]))) = Inr Undefined"
proof -
  have "readUInt16LE [9, 0] 0 = Inr 9" "readUInt16LE [4, 0] 0 = Inr 4"
    "readUInt16LE [0, 1] 0 = Inr 256"
    by (simp_all add: readUInt16LE_def)
  then show ?thesis
    using getters_unmapped_value_undefined [of "[9, 0]" 9 newCamera]
      getters_unmapped_value_undefined [of "[4, 0]" 4 newCamera]
      getters_unmapped_value_undefined [of "[0, 1]" 256 newCamera]
    by (simp add: ITT_MODES_def LUT_MODES_def NUC_MODES_def)
qed

theorem getITT_unknown_counterexample:
  "fst (getITT newCamera (Inr (Some [9, 0]))) = Inr Undefined"
  by (simp add: getITT_def send_no_data readMode_def readUInt16LE_def ITT_MAP_apply ITT_GET_def)

end
